theory Spec2Isabelle
  imports Main "HOL-Library.Sublist"
begin

section \<open>Strings\<close>

text \<open>
  A Python \<open>str\<close> is modelled as a \<open>string\<close> whose characters stand for the code points
  below 256, \<open>of_char c\<close> being the code point of \<open>c\<close>. On these code points
  \<open>str.isspace\<close>, the class \<open>\s\<close> of \<open>re\<close> and the characters removed by
  \<open>str.strip()\<close> coincide: 9 to 13, 28 to 32, 133 and 160.
\<close>

definition isspace :: "char \<Rightarrow> bool" where
  "isspace c =
     (let n = (of_char c :: nat)
      in (9 \<le> n \<and> n \<le> 13) \<or> (28 \<le> n \<and> n \<le> 32) \<or> n = 133 \<or> n = 160)"

definition strip :: "string \<Rightarrow> string" where
  "strip s = rev (dropWhile isspace (rev (dropWhile isspace s)))"

text \<open>\<open>s.split('\n')\<close>: the pieces between newlines; the empty text has one empty piece.\<close>

fun split_nl :: "string \<Rightarrow> string list" where
  "split_nl [] = [[]]"
| "split_nl (c # cs) =
     (if c = CHR 0x0A then [] # split_nl cs
      else (case split_nl cs of
              [] \<Rightarrow> [[c]]
            | l # ls \<Rightarrow> (c # l) # ls))"

section \<open>Sections\<close>

record PaperSection =
  title :: string
  content :: string
  level :: int

text \<open>
  The dictionary \<open>current_section\<close>: the keys \<open>"title"\<close> and \<open>"content"\<close> are always
  present, the key \<open>"level"\<close> only once a header has been seen.
\<close>

record current_section =
  cs_title :: string
  cs_content :: string
  cs_level :: "int option"

text \<open>
  \<open>re.match(r'^(#{1,6})\s+(.+)$', line)\<close> on a line without newline, as the pieces of
  \<open>split('\n')\<close> are. The first group takes the leading marker characters; the match needs
  between one and six of them, directly followed by whitespace (with fewer markers taken
  the next character is a marker, so backtracking on the first group never helps). The
  whitespace run is taken greedily and the second group is the rest of the line. When
  nothing follows the whitespace, the matcher gives the last whitespace character back to
  the second group, which needs one character at least; that takes a run of two or more.
  The result is \<open>(group(1), group(2))\<close>.
\<close>

definition header_match :: "string \<Rightarrow> (string \<times> string) option" where
  "header_match line =
     (let hashes = takeWhile (\<lambda>c. c = CHR ''#'') line;
          rest = dropWhile (\<lambda>c. c = CHR ''#'') line;
          ws = takeWhile isspace rest;
          body = dropWhile isspace rest
      in if 1 \<le> length hashes \<and> length hashes \<le> 6 \<and> ws \<noteq> [] then
           (if body \<noteq> [] then Some (hashes, body)
            else if 2 \<le> length ws then Some (hashes, [last ws])
            else None)
         else None)"

text \<open>The body of the loop over the lines: the sections emitted so far and the open one.\<close>

definition seg_step ::
  "PaperSection list \<times> current_section \<Rightarrow> string \<Rightarrow> PaperSection list \<times> current_section"
where
  "seg_step st line =
     (let sections = fst st; cur = snd st
      in case header_match line of
           Some (g1, g2) \<Rightarrow>
             ((if strip (cs_content cur) \<noteq> [] then
                 sections @ [\<lparr>title = cs_title cur, content = strip (cs_content cur), level = 1\<rparr>]
               else sections),
              \<lparr>cs_title = strip g2, cs_content = [], cs_level = Some (int (length g1))\<rparr>)
         | None \<Rightarrow>
             (if strip line \<noteq> [] then
                (sections, cur\<lparr>cs_content := cs_content cur @ line @ [CHR 0x0A]\<rparr>)
              else (sections, cur)))"

fun seg_loop ::
  "PaperSection list \<times> current_section \<Rightarrow> string list \<Rightarrow> PaperSection list \<times> current_section"
where
  "seg_loop st [] = st"
| "seg_loop st (line # lines) = seg_loop (seg_step st line) lines"

definition seg_final :: "PaperSection list \<times> current_section \<Rightarrow> PaperSection list" where
  "seg_final st =
     (let sections = fst st; cur = snd st
      in if strip (cs_content cur) \<noteq> [] then
           sections @ [\<lparr>title = cs_title cur, content = strip (cs_content cur),
                        level = (case cs_level cur of None \<Rightarrow> 1 | Some l \<Rightarrow> l)\<rparr>]
         else sections)"

definition initial_section :: current_section where
  "initial_section = \<lparr>cs_title = ''Content'', cs_content = [], cs_level = None\<rparr>"

definition parse_markdown_to_sections :: "string \<Rightarrow> PaperSection list" where
  "parse_markdown_to_sections markdown_text =
     seg_final (seg_loop ([], initial_section) (split_nl markdown_text))"

text \<open>The titles of the header lines among the given lines, in their order.\<close>

definition header_titles :: "string list \<Rightarrow> string list" where
  "header_titles ls = List.map_filter (\<lambda>l. map_option (\<lambda>g. strip (snd g)) (header_match l)) ls"

text \<open>
  What the loop has accumulated in \<open>current_section["content"]\<close> after appending the
  lines \<open>ls\<close>: each line followed by a newline.
\<close>

definition accumulated :: "string list \<Rightarrow> string" where
  "accumulated ls = concat (map (\<lambda>l. l @ [CHR 0x0A]) ls)"

text \<open>
  The groups of content lines of a list of lines: a header line ends the group before it
  and starts the next one, a blank line belongs to no group, every other line is added
  to its group as it is. \<open>acc\<close> holds the lines of the group that is open.
\<close>

fun body_groups :: "string list \<Rightarrow> string list \<Rightarrow> string list list" where
  "body_groups acc [] = [acc]"
| "body_groups acc (l # ls) =
     (if header_match l \<noteq> None then acc # body_groups [] ls
      else body_groups (if strip l \<noteq> [] then acc @ [l] else acc) ls)"

section \<open>Exceptions, formatting and the external collaborators\<close>

text \<open>
  The exception classes the code raises or catches, each with the text \<open>str(e)\<close> is
  built from. \<open>OtherException\<close> stands for any other subclass of \<open>Exception\<close>
  raised by a collaborator (an \<open>OSError\<close>, an error of the PDF reader or of the model).
\<close>

datatype exn =
    PDFValidationError string
  | PDFParsingException string
  | ValueError string
  | KeyError string
  | OtherException string

fun exn_str :: "exn \<Rightarrow> string" where
  "exn_str (PDFValidationError m) = m"
| "exn_str (PDFParsingException m) = m"
| "exn_str (ValueError m) = m"
| "exn_str (KeyError k) = [CHR 0x27] @ k @ [CHR 0x27]"
| "exn_str (OtherException m) = m"

datatype exn_class =
  PDFValidationError_class | PDFParsingException_class | ValueError_class | KeyError_class
  | OtherException_class

fun class_of :: "exn \<Rightarrow> exn_class" where
  "class_of (PDFValidationError m) = PDFValidationError_class"
| "class_of (PDFParsingException m) = PDFParsingException_class"
| "class_of (ValueError m) = ValueError_class"
| "class_of (KeyError k) = KeyError_class"
| "class_of (OtherException m) = OtherException_class"

text \<open>\<open>str.lower()\<close> on the code points below 256.\<close>

definition lower_char :: "char \<Rightarrow> char" where
  "lower_char c =
     (let n = (of_char c :: nat)
      in if (65 \<le> n \<and> n \<le> 90) \<or> (192 \<le> n \<and> n \<le> 222 \<and> n \<noteq> 215)
         then char_of (n + 32) else c)"

definition lower :: "string \<Rightarrow> string" where
  "lower s = map lower_char s"

text \<open>Decimal rendering of integers, as \<open>f"{n}"\<close> and \<open>f"{n:04d}"\<close> do.\<close>

fun show_nat :: "nat \<Rightarrow> string" where
  "show_nat n =
     (if n < 10 then [char_of (48 + n)]
      else show_nat (n div 10) @ [char_of (48 + n mod 10)])"

declare show_nat.simps [simp del]

definition show_int :: "int \<Rightarrow> string" where
  "show_int i = (if i < 0 then CHR ''-'' # show_nat (nat (- i)) else show_nat (nat i))"

definition pad4 :: "nat \<Rightarrow> string" where
  "pad4 n = replicate (4 - length (show_nat n)) CHR ''0'' @ show_nat n"

text \<open>\<open>sep.join(xs)\<close>.\<close>

fun join :: "string \<Rightarrow> string list \<Rightarrow> string" where
  "join sep [] = []"
| "join sep [x] = x"
| "join sep (x # y # ys) = x @ sep @ join sep (y # ys)"

text \<open>
  What the code consumes and does not implement: the file system, the PDF reader, the
  page renderer and the inference session. Each call is a function of the world; a call
  that raises gives the text of its exception (\<open>Inl\<close>, or \<open>Some\<close> where there is no
  result). The rendering \<open>f"{x / 1024 / 1024:.1f}"\<close> of a byte count is floating point
  and is taken as given.
\<close>

record world =
  path_exists :: "string \<Rightarrow> bool"
  path_name :: "string \<Rightarrow> string"
  stat_size :: "string \<Rightarrow> string + int"
  read_header :: "string \<Rightarrow> string + string"
  pdfium_len :: "string \<Rightarrow> string + int"
  load_model :: "string \<Rightarrow> string option"
  mkdtemp :: "string + string"
  render_save :: "string \<Rightarrow> nat \<Rightarrow> string \<Rightarrow> string option"
  infer :: "string \<Rightarrow> int \<Rightarrow> int \<Rightarrow> string + string"
  fmt_mb :: "int \<Rightarrow> string"

section \<open>Text rebuilt from sections\<close>

text \<open>
  The text rebuilt from a section, \<open>"# " + title + "\n" + content\<close>, and from a
  sequence of sections, one block after the other, each on lines of its own.
\<close>

definition section_block :: "PaperSection \<Rightarrow> string" where
  "section_block s = ''# '' @ title s @ [CHR 0x0A] @ content s"

definition rebuild :: "PaperSection list \<Rightarrow> string" where
  "rebuild secs = join [CHR 0x0A] (map section_block secs)"

text \<open>
  The lines of such a block, the section that a header line closes, and the shape of the
  sections the segmenter emits: title and content trimmed, the title on one line, the
  content not empty and without blank line.
\<close>

definition block_lines :: "PaperSection \<Rightarrow> string list" where
  "block_lines s = (''# '' @ title s) # split_nl (content s)"

definition closed :: "current_section \<Rightarrow> PaperSection list" where
  "closed cur = (if strip (cs_content cur) \<noteq> [] then
       [\<lparr>title = cs_title cur, content = strip (cs_content cur), level = 1\<rparr>] else [])"

definition shaped :: "PaperSection \<Rightarrow> bool" where
  "shaped s \<longleftrightarrow>
     strip (title s) = title s \<and> CHR 0x0A \<notin> set (title s) \<and>
     strip (content s) = content s \<and> content s \<noteq> [] \<and>
     (\<forall>l \<in> set (split_nl (content s)). strip l \<noteq> [])"

section \<open>The vision backend\<close>

record DeepSeekParser =
  max_pages :: int
  max_file_size_bytes :: int
  model_name :: string
  resolution :: string

definition resolution_config :: "string \<rightharpoonup> int \<times> int" where
  "resolution_config =
     [''tiny'' \<mapsto> (512, 512), ''small'' \<mapsto> (640, 640),
      ''base'' \<mapsto> (1024, 640), ''large'' \<mapsto> (1280, 640)]"

definition DeepSeekParser_init :: "int \<Rightarrow> int \<Rightarrow> string \<Rightarrow> string \<Rightarrow> exn + DeepSeekParser" where
  "DeepSeekParser_init max_pages' max_file_size_mb model_name' resolution' =
     (if resolution_config resolution' = None then
        Inl (ValueError (''Invalid resolution: '' @ resolution' @ ''. Must be one of [''
               @ [CHR 0x27] @ ''tiny'' @ [CHR 0x27] @ '', ''
               @ [CHR 0x27] @ ''small'' @ [CHR 0x27] @ '', ''
               @ [CHR 0x27] @ ''base'' @ [CHR 0x27] @ '', ''
               @ [CHR 0x27] @ ''large'' @ [CHR 0x27] @ '']''))
      else
        Inr \<lparr>max_pages = max_pages',
             max_file_size_bytes = max_file_size_mb * 1024 * 1024,
             model_name = model_name',
             resolution = resolution'\<rparr>)"

text \<open>
  What a call can change: whether the model is loaded (\<open>self._model is not None\<close>) and
  the temporary directories that exist, each with the files in it.
\<close>

record pstate =
  model_loaded :: bool
  tmp :: "string \<rightharpoonup> string list"

definition validation_io_error :: "string \<Rightarrow> string \<Rightarrow> exn" where
  "validation_io_error pdf_path e =
     PDFValidationError (''Error validating PDF '' @ pdf_path @ '': '' @ e)"

definition validate_pdf :: "world \<Rightarrow> DeepSeekParser \<Rightarrow> string \<Rightarrow> exn + bool" where
  "validate_pdf w self pdf_path =
     (case stat_size w pdf_path of
        Inl e \<Rightarrow> Inl (validation_io_error pdf_path e)
      | Inr file_size \<Rightarrow>
          if file_size = 0 then
            Inl (PDFValidationError (''PDF file is empty: '' @ pdf_path))
          else if file_size > max_file_size_bytes self then
            Inl (PDFValidationError
                   (''PDF file too large: '' @ fmt_mb w file_size @ ''MB > ''
                      @ fmt_mb w (max_file_size_bytes self) @ ''MB''))
          else
            (case read_header w pdf_path of
               Inl e \<Rightarrow> Inl (validation_io_error pdf_path e)
             | Inr header \<Rightarrow>
                 if \<not> prefix ''%PDF-'' header then
                   Inl (PDFValidationError (''File does not have PDF header: '' @ pdf_path))
                 else
                   (case pdfium_len w pdf_path of
                      Inl e \<Rightarrow> Inl (validation_io_error pdf_path e)
                    | Inr actual_pages \<Rightarrow>
                        if actual_pages > max_pages self then
                          Inl (PDFValidationError
                                 (''PDF has too many pages: '' @ show_int actual_pages
                                    @ '' > '' @ show_int (max_pages self)))
                        else Inr True)))"

definition lazy_load_model :: "world \<Rightarrow> DeepSeekParser \<Rightarrow> pstate \<Rightarrow> exn + pstate" where
  "lazy_load_model w self s =
     (if \<not> model_loaded s then
        (case load_model w (model_name self) of
           Some e \<Rightarrow> Inl (OtherException e)
         | None \<Rightarrow> Inr (s\<lparr>model_loaded := True\<rparr>))
      else Inr s)"

text \<open>The loop over the page numbers: render, save into the directory, remember the path.\<close>

fun render_pages ::
  "world \<Rightarrow> string \<Rightarrow> string \<Rightarrow> nat list \<Rightarrow> string list \<Rightarrow> pstate
     \<Rightarrow> (exn + string list) \<times> pstate"
where
  "render_pages w pdf_path output_dir [] image_paths s = (Inr image_paths, s)"
| "render_pages w pdf_path output_dir (page_num # rest) image_paths s =
     (let image_path = output_dir @ ''/page_'' @ pad4 page_num @ ''.png''
      in case render_save w pdf_path page_num image_path of
           Some e \<Rightarrow> (Inl (OtherException e), s)
         | None \<Rightarrow>
             render_pages w pdf_path output_dir rest (image_paths @ [image_path])
               (s\<lparr>tmp := (tmp s)(output_dir \<mapsto>
                      (case tmp s output_dir of None \<Rightarrow> [] | Some fs \<Rightarrow> fs) @ [image_path])\<rparr>))"

definition extract_pages_as_images ::
  "world \<Rightarrow> DeepSeekParser \<Rightarrow> string \<Rightarrow> string \<Rightarrow> pstate \<Rightarrow> (exn + string list) \<times> pstate"
where
  "extract_pages_as_images w self pdf_path output_dir s =
     (case pdfium_len w pdf_path of
        Inl e \<Rightarrow> (Inl (OtherException e), s)
      | Inr n \<Rightarrow>
          (let num_pages = min n (max_pages self);
               s1 = s\<lparr>tmp := (tmp s)(output_dir \<mapsto>
                      (case tmp s output_dir of None \<Rightarrow> [] | Some fs \<Rightarrow> fs))\<rparr>
           in render_pages w pdf_path output_dir [0..<nat num_pages] [] s1))"

definition extract_text_from_image_file :: "world \<Rightarrow> DeepSeekParser \<Rightarrow> string \<Rightarrow> exn + string" where
  "extract_text_from_image_file w self image_path =
     (case resolution_config (resolution self) of
        None \<Rightarrow> Inl (KeyError (resolution self))
      | Some (base_size, image_size) \<Rightarrow>
          (case infer w image_path base_size image_size of
             Inl e \<Rightarrow> Inr []
           | Inr result \<Rightarrow> Inr result))"

fun ocr_pages :: "world \<Rightarrow> DeepSeekParser \<Rightarrow> string list \<Rightarrow> string list \<Rightarrow> exn + string list" where
  "ocr_pages w self [] all_text = Inr all_text"
| "ocr_pages w self (image_path # rest) all_text =
     (case extract_text_from_image_file w self image_path of
        Inl e \<Rightarrow> Inl e
      | Inr page_text \<Rightarrow> ocr_pages w self rest (all_text @ [page_text]))"

datatype ParserType = DOCLING | DEEPSEEK

datatype meta_value = MStr string | MInt int

record PdfContent =
  sections :: "PaperSection list"
  figures :: "unit list"
  tables :: "unit list"
  raw_text :: string
  references :: "unit list"
  parser_used :: ParserType
  metadata :: "(string \<times> meta_value) list"

text \<open>
  The \<open>try\<close> block of \<open>parse_pdf\<close>: its result or the exception that leaves it, the
  state, and the value of \<open>temp_dir\<close> at that point (\<open>None\<close> until \<open>mkdtemp\<close> returned).
\<close>

definition parse_pdf_try ::
  "world \<Rightarrow> DeepSeekParser \<Rightarrow> string \<Rightarrow> pstate \<Rightarrow> (exn + PdfContent) \<times> pstate \<times> string option"
where
  "parse_pdf_try w self pdf_path s =
     (case validate_pdf w self pdf_path of
        Inl e \<Rightarrow> (Inl e, s, None)
      | Inr ok \<Rightarrow>
          (case lazy_load_model w self s of
             Inl e \<Rightarrow> (Inl e, s, None)
           | Inr s1 \<Rightarrow>
               (case mkdtemp w of
                  Inl e \<Rightarrow> (Inl (OtherException e), s1, None)
                | Inr temp_dir \<Rightarrow>
                    (let s2 = s1\<lparr>tmp := (tmp s1)(temp_dir \<mapsto> [])\<rparr>
                     in case extract_pages_as_images w self pdf_path temp_dir s2 of
                          (Inl e, s3) \<Rightarrow> (Inl e, s3, Some temp_dir)
                        | (Inr image_paths, s3) \<Rightarrow>
                            if image_paths = [] then
                              (Inl (PDFParsingException
                                      (''No images extracted from PDF: '' @ pdf_path)),
                               s3, Some temp_dir)
                            else
                              (case ocr_pages w self image_paths [] of
                                 Inl e \<Rightarrow> (Inl e, s3, Some temp_dir)
                               | Inr all_text \<Rightarrow>
                                   (let full_markdown = join [CHR 0x0A, CHR 0x0A] all_text;
                                        sections' = parse_markdown_to_sections full_markdown
                                    in (Inr \<lparr>sections = sections',
                                              figures = [],
                                              tables = [],
                                              raw_text = full_markdown,
                                              references = [],
                                              parser_used = DEEPSEEK,
                                              metadata =
                                                [(''source'', MStr ''deepseek-ocr''),
                                                 (''model'', MStr (model_name self)),
                                                 (''resolution'', MStr (resolution self)),
                                                 (''pages_processed'',
                                                    MInt (int (length image_paths)))]\<rparr>,
                                        s3, Some temp_dir)))))))"

text \<open>
  The classes come from a module that only declares them: \<open>PDFParsingException\<close> is
  taken not to be a subclass of \<open>PDFValidationError\<close>, so the first handler catches
  the errors of the validator only.
\<close>

text \<open>
  The handlers: a \<open>PDFValidationError\<close> whose lowered text holds \<open>too large\<close> or
  \<open>too many pages\<close> becomes the result \<open>None\<close>, any other one is raised again, and every
  other exception is wrapped into a \<open>PDFParsingException\<close>.
\<close>

definition parse_pdf_except :: "exn + PdfContent \<Rightarrow> exn + PdfContent option" where
  "parse_pdf_except r =
     (case r of
        Inr result \<Rightarrow> Inr (Some result)
      | Inl (PDFValidationError m) \<Rightarrow>
          (let error_msg = lower m
           in if sublist ''too large'' error_msg \<or> sublist ''too many pages'' error_msg
              then Inr None
              else Inl (PDFValidationError m))
      | Inl e \<Rightarrow>
          Inl (PDFParsingException (''Failed to parse PDF with DeepSeek OCR: '' @ exn_str e)))"

text \<open>The \<open>finally\<close> block: \<open>shutil.rmtree(temp_dir)\<close> when it is set and exists.\<close>

definition parse_pdf_finally :: "string option \<Rightarrow> pstate \<Rightarrow> pstate" where
  "parse_pdf_finally temp_dir s =
     (case temp_dir of
        None \<Rightarrow> s
      | Some d \<Rightarrow> if tmp s d \<noteq> None then s\<lparr>tmp := (tmp s)(d := None)\<rparr> else s)"

definition parse_pdf ::
  "world \<Rightarrow> DeepSeekParser \<Rightarrow> string \<Rightarrow> pstate \<Rightarrow> (exn + PdfContent option) \<times> pstate"
where
  "parse_pdf w self pdf_path s =
     (case parse_pdf_try w self pdf_path s of
        (r, s', temp_dir) \<Rightarrow> (parse_pdf_except r, parse_pdf_finally temp_dir s'))"

section \<open>The service\<close>

text \<open>
  \<open>PDFParserService.parse_pdf\<close> over the \<open>parse_pdf\<close> of the configured backend, given
  as a function on the backend's state. A \<open>PdfContent\<close> object is true in
  \<open>if result\<close>, only \<open>None\<close> is false. The second component of the state is the list of
  paths the backend was called with; it is not in the code and only records the calls.
\<close>

definition service_parse_pdf ::
  "world \<Rightarrow> string \<Rightarrow> (string \<Rightarrow> 's \<Rightarrow> (exn + PdfContent option) \<times> 's) \<Rightarrow> string
     \<Rightarrow> 's \<times> string list \<Rightarrow> (exn + PdfContent option) \<times> ('s \<times> string list)"
where
  "service_parse_pdf w parser_type backend_parse_pdf pdf_path st =
     (if \<not> path_exists w pdf_path then
        (Inl (PDFValidationError (''PDF file not found: '' @ pdf_path)), st)
      else
        (case backend_parse_pdf pdf_path (fst st) of
           (r, s') \<Rightarrow>
             (let st' = (s', snd st @ [pdf_path])
              in case r of
                   Inr (Some result) \<Rightarrow> (Inr (Some result), st')
                 | Inr None \<Rightarrow>
                     (Inl (PDFParsingException
                             (parser_type @ '' parsing returned no result for ''
                                @ path_name w pdf_path)), st')
                 | Inl (PDFValidationError m) \<Rightarrow> (Inl (PDFValidationError m), st')
                 | Inl (PDFParsingException m) \<Rightarrow> (Inl (PDFParsingException m), st')
                 | Inl e \<Rightarrow>
                     (Inl (PDFParsingException
                             (parser_type @ '' parsing error for '' @ path_name w pdf_path
                                @ '': '' @ exn_str e)), st'))))"

section \<open>A sample installation\<close>

text \<open>
  A world with a few files, for the concrete evaluations below: \<open>paper.pdf\<close> (50 KB,
  two pages), \<open>big.pdf\<close> (30 MB), \<open>long.pdf\<close> (31 pages), \<open>bad.pdf\<close> (no PDF
  signature) and no file \<open>missing.pdf\<close>. The parser is the one the constructor builds
  from the defaults of the service.
\<close>

definition sample_world :: world where
  "sample_world =
     \<lparr>path_exists = (\<lambda>p. p \<noteq> ''missing.pdf''),
      path_name = (\<lambda>p. p),
      stat_size = (\<lambda>p. if p = ''missing.pdf'' then Inl ''[Errno 2] No such file or directory''
                         else if p = ''big.pdf'' then Inr 31457280
                         else Inr 51200),
      read_header = (\<lambda>p. if p = ''bad.pdf'' then Inr ''<!DOCTYP'' else Inr ''%PDF-1.7''),
      pdfium_len = (\<lambda>p. if p = ''long.pdf'' then Inr 31 else Inr 2),
      load_model = (\<lambda>m. None),
      mkdtemp = Inr ''/tmp/deepseek_ocr_ab12'',
      render_save = (\<lambda>p n img. None),
      infer = (\<lambda>img b i. if img = ''/tmp/deepseek_ocr_ab12/page_0000.png''
                          then Inr ''# Intro\<newline>Hello'' else Inr ''## Method\<newline>World''),
      fmt_mb = (\<lambda>n. show_int (n div 1048576) @ ''.'' @ show_int (n mod 1048576 * 10 div 1048576))\<rparr>"

text \<open>The same world with an inference session that raises on every page.\<close>

definition silent_world :: world where
  "silent_world = sample_world\<lparr>infer := (\<lambda>img b i. Inl ''CUDA out of memory'')\<rparr>"

definition sample_parser :: DeepSeekParser where
  "sample_parser =
     \<lparr>max_pages = 30, max_file_size_bytes = 20971520,
      model_name = ''deepseek-ai/DeepSeek-OCR'', resolution = ''base''\<rparr>"

definition fresh_state :: pstate where
  "fresh_state = \<lparr>model_loaded = False, tmp = Map.empty\<rparr>"

section \<open>Properties of the section segmenter\<close>

subsection \<open>Whitespace and the header pattern\<close>

lemma isspace_hash [simp]: "\<not> isspace CHR ''#''"
  by (simp add: isspace_def)

lemma isspace_nl [simp]: "isspace (CHR 0x0A)"
  by (simp add: isspace_def)

lemma all_dropWhile_iff: "(\<forall>x \<in> set (dropWhile P xs). P x) \<longleftrightarrow> (\<forall>x \<in> set xs. P x)"
  by (induction xs) auto

lemma strip_Nil_iff: "strip s = [] \<longleftrightarrow> (\<forall>c \<in> set s. isspace c)"
  by (simp add: strip_def dropWhile_eq_Nil_conv all_dropWhile_iff)

lemma takeWhile_replicate_append:
  "takeWhile (\<lambda>c. c = x) (replicate k x @ ys) = replicate k x @ takeWhile (\<lambda>c. c = x) ys"
  by (induction k) auto

lemma dropWhile_replicate_append:
  "dropWhile (\<lambda>c. c = x) (replicate k x @ ys) = dropWhile (\<lambda>c. c = x) ys"
  by (induction k) auto

lemma header_match_SomeD:
  assumes "header_match line = Some (g1, g2)"
  shows "g1 = takeWhile (\<lambda>c. c = CHR ''#'') line" and "1 \<le> length g1" and "length g1 \<le> 6"
    and "g2 \<noteq> []"
  using assms by (auto simp: header_match_def Let_def split: if_splits)

text \<open>
  The matcher accepts exactly the lines of the pattern: one to six markers, a non-empty
  run of whitespace, a non-empty rest.
\<close>

lemma header_match_regex:
  "header_match line \<noteq> None \<longleftrightarrow>
     (\<exists>k ws body. line = replicate k CHR ''#'' @ ws @ body \<and> 1 \<le> k \<and> k \<le> 6 \<and>
        ws \<noteq> [] \<and> (\<forall>c \<in> set ws. isspace c) \<and> body \<noteq> [])"
  (is "?L \<longleftrightarrow> ?R")
proof
  assume ?L
  define hs where "hs = takeWhile (\<lambda>c. c = CHR ''#'') line"
  define rest where "rest = dropWhile (\<lambda>c. c = CHR ''#'') line"
  define ws where "ws = takeWhile isspace rest"
  define body where "body = dropWhile isspace rest"
  have line: "line = hs @ ws @ body"
    by (simp add: hs_def rest_def ws_def body_def)
  have hs: "hs = replicate (length hs) CHR ''#''"
    unfolding hs_def by (induction line) auto
  have ws_sp: "\<forall>c \<in> set ws. isspace c"
    unfolding ws_def by (auto dest: set_takeWhileD)
  from \<open>?L\<close> have k: "1 \<le> length hs" "length hs \<le> 6" and wsne: "ws \<noteq> []"
    and alt: "body \<noteq> [] \<or> 2 \<le> length ws"
    by (auto simp: header_match_def Let_def hs_def rest_def ws_def body_def split: if_splits)
  show ?R
  proof (cases "body = []")
    case False
    with line hs k wsne ws_sp show ?thesis by metis
  next
    case True
    with alt have l2: "2 \<le> length ws" by simp
    have "line = hs @ butlast ws @ [last ws]"
      using line True wsne by simp
    moreover have "butlast ws \<noteq> []" using l2 by (cases ws) (auto split: if_splits)
    moreover have "\<forall>c \<in> set (butlast ws). isspace c" using ws_sp by (auto dest: in_set_butlastD)
    ultimately show ?thesis using hs k by (metis not_Cons_self2)
  qed
next
  assume ?R
  then obtain k ws body where line: "line = replicate k CHR ''#'' @ ws @ body"
    and k: "1 \<le> k" "k \<le> 6" and wsne: "ws \<noteq> []" and ws_sp: "\<forall>c \<in> set ws. isspace c"
    and body: "body \<noteq> []" by blast
  from wsne ws_sp have hdws: "hd (ws @ body) \<noteq> CHR ''#''" by (cases ws) auto
  have tw: "takeWhile (\<lambda>c. c = CHR ''#'') line = replicate k CHR ''#''"
    unfolding line using hdws wsne by (cases ws) (auto simp: takeWhile_replicate_append)
  have dw: "dropWhile (\<lambda>c. c = CHR ''#'') line = ws @ body"
    unfolding line using hdws wsne by (cases ws) (auto simp: dropWhile_replicate_append)
  have tws: "takeWhile isspace (ws @ body) = ws @ takeWhile isspace body"
    using ws_sp by (simp add: takeWhile_append2)
  have dws: "dropWhile isspace (ws @ body) = dropWhile isspace body"
    using ws_sp by (simp add: dropWhile_append2)
  have len: "dropWhile isspace body = [] \<Longrightarrow> 2 \<le> length (ws @ takeWhile isspace body)"
    using wsne body by (cases ws; cases body) (auto simp: dropWhile_eq_Nil_conv)
  show ?L
    using k wsne len by (auto simp: header_match_def Let_def tw dw tws dws)
qed

subsection \<open>Levels\<close>

text \<open>
  Claim C2. Each emitted section should carry the number of markers of the header line
  that opened it. The section closed by a later header is emitted with level 1 whatever
  its own header was: in the text below the section \<open>A\<close> is opened by a header of two
  markers and comes out with level 1. Only the last section keeps its header's level.
\<close>

theorem level_of_closed_section_is_one:
  "parse_markdown_to_sections ''## A\<newline>foo\<newline># B\<newline>bar'' =
     [\<lparr>title = ''A'', content = ''foo'', level = 1\<rparr>,
      \<lparr>title = ''B'', content = ''bar'', level = 1\<rparr>]"
  by (simp add: parse_markdown_to_sections_def seg_final_def seg_step_def header_match_def
      strip_def isspace_def initial_section_def)

text \<open>What does hold: every emitted level is between 1 and 6, and the last section keeps
  the level of its header.\<close>

lemma seg_step_levels:
  assumes "\<forall>s \<in> set (fst st). 1 \<le> level s \<and> level s \<le> 6"
    and "case cs_level (snd st) of None \<Rightarrow> True | Some n \<Rightarrow> 1 \<le> n \<and> n \<le> 6"
  shows "(\<forall>s \<in> set (fst (seg_step st l)). 1 \<le> level s \<and> level s \<le> 6) \<and>
         (case cs_level (snd (seg_step st l)) of None \<Rightarrow> True | Some n \<Rightarrow> 1 \<le> n \<and> n \<le> 6)"
proof (cases "header_match l")
  case None
  with assms show ?thesis by (auto simp: seg_step_def Let_def split: if_splits)
next
  case (Some g)
  obtain g1 g2 where g: "g = (g1, g2)" by (cases g)
  from header_match_SomeD(2,3) [OF Some [unfolded g]] have "1 \<le> length g1" "length g1 \<le> 6" .
  with assms show ?thesis by (auto simp: seg_step_def Let_def Some g split: if_splits)
qed

lemma seg_loop_levels:
  assumes "\<forall>s \<in> set (fst st). 1 \<le> level s \<and> level s \<le> 6"
    and "case cs_level (snd st) of None \<Rightarrow> True | Some n \<Rightarrow> 1 \<le> n \<and> n \<le> 6"
  shows "\<forall>s \<in> set (seg_final (seg_loop st ls)). 1 \<le> level s \<and> level s \<le> 6"
  using assms
proof (induction ls arbitrary: st)
  case Nil
  then show ?case by (auto simp: seg_final_def Let_def split: option.splits)
next
  case (Cons l ls)
  from seg_step_levels [OF Cons.prems, of l]
  have "\<forall>s \<in> set (seg_final (seg_loop (seg_step st l) ls)). 1 \<le> level s \<and> level s \<le> 6"
    by (intro Cons.IH) auto
  then show ?case by simp
qed

lemma levels_in_range:
  "s \<in> set (parse_markdown_to_sections t) \<Longrightarrow> 1 \<le> level s \<and> level s \<le> 6"
  using seg_loop_levels [of "([], initial_section)" "split_nl t"]
  by (simp add: parse_markdown_to_sections_def initial_section_def)

lemma last_level:
  "parse_markdown_to_sections ''# A\<newline>foo\<newline>### B\<newline>bar'' =
     [\<lparr>title = ''A'', content = ''foo'', level = 1\<rparr>, \<lparr>title = ''B'', content = ''bar'', level = 3\<rparr>]"
  by (simp add: parse_markdown_to_sections_def seg_final_def seg_step_def header_match_def
      strip_def isspace_def initial_section_def)
subsection \<open>Lines with seven markers or more\<close>



subsection \<open>Lines, trimming and blank text\<close>

lemma split_nl_ne [simp]: "split_nl s \<noteq> []"
  by (induction s) (auto split: list.splits)

lemma split_nl_chars: "l \<in> set (split_nl s) \<Longrightarrow> c \<in> set l \<Longrightarrow> c \<in> set s"
  by (induction s arbitrary: l) (fastforce split: if_splits list.splits)+

lemma split_nl_no_nl: "l \<in> set (split_nl s) \<Longrightarrow> CHR 0x0A \<notin> set l"
  by (induction s arbitrary: l) (auto split: if_splits list.splits)

lemma split_nl_nl_free: "CHR 0x0A \<notin> set s \<Longrightarrow> split_nl s = [s]"
  by (induction s) auto

lemma split_nl_append: "split_nl (a @ CHR 0x0A # b) = split_nl a @ split_nl b"
  by (induction a) (auto split: list.splits)

lemma strip_strip [simp]: "strip (strip s) = strip s"
proof -
  have a: "dropWhile P (dropWhile P xs) = dropWhile P xs" for P and xs :: "'a list"
    by (induction xs) auto
  have b: "dropWhile isspace (rev (dropWhile isspace xs)) = [] \<or>
           \<not> isspace (hd (dropWhile isspace (rev (dropWhile isspace xs))))" for xs
    using hd_dropWhile by blast
  define y where "y = dropWhile isspace s"
  define z where "z = dropWhile isspace (rev y)"
  have z: "z = [] \<or> \<not> isspace (hd z)"
    unfolding z_def using hd_dropWhile by blast
  have y: "y = [] \<or> \<not> isspace (hd y)"
    unfolding y_def using hd_dropWhile by blast
  have "dropWhile isspace (rev z) = rev z"
  proof (cases "z = []")
    case True then show ?thesis by simp
  next
    case False
    then have "y \<noteq> []" by (auto simp: z_def)
    with y have hy: "\<not> isspace (hd y)" by simp
    have "set z \<subseteq> set y" by (auto simp: z_def dest: set_dropWhileD)
    obtain k where "rev y = takeWhile isspace (rev y) @ z"
      by (simp add: z_def)
    then have "y = rev z @ rev (takeWhile isspace (rev y))"
      by (metis rev_append rev_rev_ident)
    with False have "hd (rev z) = hd y" by (metis hd_append2 rev_is_Nil_conv)
    with hy False show ?thesis by (cases "rev z") auto
  qed
  moreover have "dropWhile isspace (rev (rev z)) = z"
    using z by (cases z) auto
  ultimately show ?thesis
    by (simp add: strip_def y_def z_def)
qed

lemma header_match_blank: "strip l = [] \<Longrightarrow> header_match l = None"
  by (cases l) (auto simp: strip_Nil_iff header_match_def Let_def)

lemma seg_step_blank: "strip l = [] \<Longrightarrow> seg_step st l = st"
  by (simp add: seg_step_def header_match_blank)

lemma seg_loop_blank: "\<forall>l \<in> set ls. strip l = [] \<Longrightarrow> seg_loop st ls = st"
  by (induction ls arbitrary: st) (auto simp: seg_step_blank)

lemma blank_no_sections:
  assumes "strip t = []"
  shows "parse_markdown_to_sections t = []"
proof -
  have "\<forall>l \<in> set (split_nl t). strip l = []"
    using assms split_nl_chars by (fastforce simp: strip_Nil_iff)
  then show ?thesis
    by (simp add: parse_markdown_to_sections_def seg_loop_blank seg_final_def initial_section_def strip_def)
qed




subsection \<open>Content and order of the emitted sections\<close>

lemma header_titles_simps [simp]:
  "header_titles [] = []"
  "header_match l = None \<Longrightarrow> header_titles (l # ls) = header_titles ls"
  "header_match l = Some (g1, g2) \<Longrightarrow> header_titles (l # ls) = strip g2 # header_titles ls"
  by (simp_all add: header_titles_def List.map_filter_simps)




subsection \<open>Text without header lines\<close>

lemma split_nl_chars_conv:
  "c \<in> set s \<Longrightarrow> c = CHR 0x0A \<or> (\<exists>l \<in> set (split_nl s). c \<in> set l)"
  by (induction s) (auto split: list.splits)

lemma blank_iff_lines: "strip t = [] \<longleftrightarrow> (\<forall>l \<in> set (split_nl t). strip l = [])"
  unfolding strip_Nil_iff
  using split_nl_chars split_nl_chars_conv isspace_nl by metis

lemma seg_loop_no_header:
  assumes "\<forall>l \<in> set ls. header_match l = None"
  shows "seg_loop (secs, cur) ls =
     (secs, cur\<lparr>cs_content := cs_content cur @
                 concat (map (\<lambda>l. l @ [CHR 0x0A]) (filter (\<lambda>l. strip l \<noteq> []) ls))\<rparr>)"
  using assms by (induction ls arbitrary: cur) (auto simp: seg_step_def)

lemma strip_unlines_Nil_iff:
  "strip (concat (map (\<lambda>l. l @ [CHR 0x0A]) (filter (\<lambda>l. strip l \<noteq> []) ls))) = [] \<longleftrightarrow>
   (\<forall>l \<in> set ls. strip l = [])"
  by (auto simp: strip_Nil_iff)

text \<open>
  Claim C6, as amended. A text without header lines gives no section when it is blank,
  and otherwise exactly one section, with the default title, level 1, and as content the
  non-blank lines of the input joined by newlines and trimmed.
\<close>

theorem no_header_one_section:
  assumes "\<forall>l \<in> set (split_nl t). header_match l = None"
  shows "parse_markdown_to_sections t =
     (if strip t = [] then []
      else [\<lparr>title = ''Content'',
             content = strip (concat (map (\<lambda>l. l @ [CHR 0x0A])
                                (filter (\<lambda>l. strip l \<noteq> []) (split_nl t)))),
             level = 1\<rparr>])"
  using strip_unlines_Nil_iff [of "split_nl t"]
  by (simp add: parse_markdown_to_sections_def seg_loop_no_header [OF assms] seg_final_def
      initial_section_def blank_iff_lines [of t])

theorem no_header_one_section_witness:
  "parse_markdown_to_sections ''  first line\<newline>\<newline>second line \<newline>'' =
     [\<lparr>title = ''Content'', content = ''first line\<newline>second line'', level = 1\<rparr>]"
  using no_header_one_section [of "''  first line\<newline>\<newline>second line \<newline>''"]
  by (simp add: header_match_def strip_def isspace_def)

text \<open>
  Claim C6 as stated fails: the text below has no header line and is already trimmed,
  and the content of its section is not the text, the blank line inside is gone.
\<close>

theorem blank_lines_are_dropped:
  "map header_match (split_nl ''a\<newline>\<newline>b'') = [None, None, None] \<and>
   strip ''a\<newline>\<newline>b'' = ''a\<newline>\<newline>b'' \<and>
   parse_markdown_to_sections ''a\<newline>\<newline>b'' =
     [\<lparr>title = ''Content'', content = ''a\<newline>b'', level = 1\<rparr>]"
  by (simp add: parse_markdown_to_sections_def seg_final_def seg_step_def header_match_def
      strip_def isspace_def initial_section_def)

subsection \<open>The lines of the contents\<close>

lemma accumulated_simps [simp]:
  "accumulated [] = []"
  "accumulated (l # ls) = l @ CHR 0x0A # accumulated ls"
  "accumulated (xs @ ys) = accumulated xs @ accumulated ys"
  by (simp_all add: accumulated_def)

lemma strip_sandwich:
  assumes "\<forall>c \<in> set ws1. isspace c" "\<forall>c \<in> set ws2. isspace c"
    and "core \<noteq> []" "\<not> isspace (hd core)" "\<not> isspace (last core)"
  shows "strip (ws1 @ core @ ws2) = core"
proof -
  have nohd: "dropWhile isspace xs = xs" if "xs \<noteq> []" "\<not> isspace (hd xs)" for xs
    using that by (cases xs) auto
  have "dropWhile isspace (ws1 @ core @ ws2) = dropWhile isspace (core @ ws2)"
    using assms(1) by (intro dropWhile_append2) auto
  also have "\<dots> = core @ ws2"
    using assms(3,4) by (intro nohd) auto
  finally have a: "dropWhile isspace (ws1 @ core @ ws2) = core @ ws2" .
  have "dropWhile isspace (rev ws2 @ rev core) = dropWhile isspace (rev core)"
    using assms(2) by (intro dropWhile_append2) auto
  also have "\<dots> = rev core"
    using assms(3,5) by (intro nohd) (auto simp: hd_rev)
  finally show ?thesis by (simp add: strip_def a)
qed

lemma strip_decomp:
  assumes "strip l \<noteq> []"
  obtains ws1 ws2 where "l = ws1 @ strip l @ ws2"
    "\<forall>c \<in> set ws1. isspace c" "\<forall>c \<in> set ws2. isspace c"
    "\<not> isspace (hd (strip l))" "\<not> isspace (last (strip l))"
proof -
  define y where "y = dropWhile isspace l"
  define z where "z = dropWhile isspace (rev y)"
  have sl: "strip l = rev z" by (simp add: strip_def y_def z_def)
  with assms have zne: "z \<noteq> []" by simp
  then have yne: "y \<noteq> []" by (auto simp: z_def)
  have "rev y = takeWhile isspace (rev y) @ z" by (simp add: z_def)
  then have y: "y = rev z @ rev (takeWhile isspace (rev y))"
    by (metis rev_append rev_rev_ident)
  have l: "l = takeWhile isspace l @ y" by (simp add: y_def)
  have 1: "l = takeWhile isspace l @ strip l @ rev (takeWhile isspace (rev y))"
    using l y sl by metis
  have 2: "\<forall>c \<in> set (takeWhile isspace l). isspace c" by (auto dest: set_takeWhileD)
  have 3: "\<forall>c \<in> set (rev (takeWhile isspace (rev y))). isspace c" by (auto dest: set_takeWhileD)
  have "\<not> isspace (hd y)" using yne hd_dropWhile unfolding y_def by blast
  moreover have "hd y = hd (rev z)" using y zne by (metis hd_append2 rev_is_Nil_conv)
  ultimately have 4: "\<not> isspace (hd (strip l))" by (simp add: sl)
  have "\<not> isspace (hd z)" using zne hd_dropWhile unfolding z_def by blast
  then have 5: "\<not> isspace (last (strip l))" using zne by (simp add: sl last_rev)
  from 1 2 3 4 5 show ?thesis by (rule that)
qed

lemma split_nl_accumulated_append:
  "\<forall>l \<in> set ms. CHR 0x0A \<notin> set l \<Longrightarrow> split_nl (accumulated ms @ x) = ms @ split_nl x"
proof (induction ms)
  case Nil then show ?case by simp
next
  case (Cons m ms)
  have "split_nl (m @ CHR 0x0A # (accumulated ms @ x)) = split_nl m @ split_nl (accumulated ms @ x)"
    by (rule split_nl_append)
  with Cons show ?case by (simp add: split_nl_nl_free)
qed

lemma strip_nl_free: "CHR 0x0A \<notin> set l \<Longrightarrow> CHR 0x0A \<notin> set (strip l)"
  by (auto simp: strip_def dest!: set_dropWhileD)

text \<open>The lines of a trimmed accumulation are the accumulated lines, up to trimming.\<close>

lemma lines_of_stripped_accumulation:
  assumes ne: "acc \<noteq> []"
    and good: "\<forall>l \<in> set acc. strip l \<noteq> [] \<and> CHR 0x0A \<notin> set l"
  shows "map strip (split_nl (strip (accumulated acc))) = map strip acc"
proof -
  obtain l1 rest where acc: "acc = l1 # rest" using ne by (cases acc) auto
  from good acc have g1: "strip l1 \<noteq> []" "CHR 0x0A \<notin> set l1" by auto
  from strip_decomp [OF g1(1)] obtain a1 a2 where
    l1: "l1 = a1 @ strip l1 @ a2" and a1: "\<forall>c \<in> set a1. isspace c" and a2: "\<forall>c \<in> set a2. isspace c"
    and h1: "\<not> isspace (hd (strip l1))" and t1: "\<not> isspace (last (strip l1))" by blast
  show ?thesis
  proof (cases "rest = []")
    case True
    have "accumulated acc = a1 @ strip l1 @ (a2 @ [CHR 0x0A])"
      using l1 by (simp add: acc True)
    moreover have "strip (a1 @ strip l1 @ (a2 @ [CHR 0x0A])) = strip l1"
      using a1 a2 g1(1) h1 t1 by (intro strip_sandwich) auto
    ultimately have "strip (accumulated acc) = strip l1" by simp
    then show ?thesis
      using g1(2) by (simp add: acc True split_nl_nl_free strip_nl_free)
  next
    case False
    then obtain mid ln where rest: "rest = mid @ [ln]" by (metis rev_exhaust)
    from good acc rest have gn: "strip ln \<noteq> []" "CHR 0x0A \<notin> set ln"
      and gm: "\<forall>l \<in> set mid. CHR 0x0A \<notin> set l" by auto
    from strip_decomp [OF gn(1)] obtain b1 b2 where
      ln: "ln = b1 @ strip ln @ b2" and b1: "\<forall>c \<in> set b1. isspace c" and b2: "\<forall>c \<in> set b2. isspace c"
      and hn: "\<not> isspace (hd (strip ln))" and tn: "\<not> isspace (last (strip ln))" by blast
    define core where "core = strip l1 @ a2 @ CHR 0x0A # accumulated mid @ b1 @ strip ln"
    have "accumulated acc = l1 @ CHR 0x0A # accumulated mid @ ln @ [CHR 0x0A]"
      by (simp add: acc rest)
    also have "\<dots> = (a1 @ strip l1 @ a2) @ CHR 0x0A # accumulated mid @ (b1 @ strip ln @ b2) @ [CHR 0x0A]"
      using l1 ln by simp
    also have "\<dots> = a1 @ core @ (b2 @ [CHR 0x0A])"
      by (simp add: core_def)
    finally have "strip (accumulated acc) = strip (a1 @ core @ (b2 @ [CHR 0x0A]))" by simp
    also have "\<dots> = core"
    proof (rule strip_sandwich)
      show "\<not> isspace (hd core)" using h1 g1(1) by (simp add: core_def hd_append)
      show "\<not> isspace (last core)" using tn gn(1) by (simp add: core_def)
    qed (use a1 b2 g1 in \<open>auto simp: core_def\<close>)
    finally have sc: "strip (accumulated acc) = core" .
    have nlf1: "CHR 0x0A \<notin> set (strip l1 @ a2)"
      using g1(2) l1 by (metis Un_iff set_append)
    have nlfn: "CHR 0x0A \<notin> set (b1 @ strip ln)"
      using gn(2) ln by (metis Un_iff set_append)
    have "core = (strip l1 @ a2) @ CHR 0x0A # (accumulated mid @ (b1 @ strip ln))"
      by (simp add: core_def)
    then have "split_nl core = split_nl (strip l1 @ a2) @ split_nl (accumulated mid @ (b1 @ strip ln))"
      by (simp only: split_nl_append)
    also have "\<dots> = (strip l1 @ a2) # mid @ [b1 @ strip ln]"
      using nlf1 nlfn gm by (simp add: split_nl_nl_free split_nl_accumulated_append)
    finally have sp: "split_nl core = (strip l1 @ a2) # mid @ [b1 @ strip ln]" .
    have s1: "strip (strip l1 @ a2) = strip l1"
      using strip_sandwich [of "[]" a2 "strip l1"] a2 g1(1) h1 t1 by simp
    have sn: "strip (b1 @ strip ln) = strip ln"
      using strip_sandwich [of b1 "[]" "strip ln"] b1 gn(1) hn tn by simp
    have "map strip (split_nl (strip (accumulated acc))) = map strip (split_nl core)"
      by (simp only: sc)
    also have "\<dots> = strip l1 # map strip mid @ [strip ln]"
      by (simp add: sp s1 sn)
    also have "\<dots> = map strip acc"
      by (simp add: acc rest)
    finally show ?thesis .
  qed
qed

lemma strip_accumulated_Nil_iff:
  "\<forall>l \<in> set acc. strip l \<noteq> [] \<Longrightarrow> strip (accumulated acc) = [] \<longleftrightarrow> acc = []"
  by (cases acc) (auto simp: strip_Nil_iff)

lemma seg_loop_groups:
  assumes "cs_content cur = accumulated acc"
    and "\<forall>l \<in> set acc. strip l \<noteq> []"
  shows "map content (seg_final (seg_loop (secs, cur) ls)) =
         map content secs @
         map (\<lambda>g. strip (accumulated g)) (filter (\<lambda>g. g \<noteq> []) (body_groups acc ls))"
  using assms
proof (induction ls arbitrary: secs cur acc)
  case Nil
  from Nil(2) have "strip (accumulated acc) = [] \<longleftrightarrow> acc = []"
    by (rule strip_accumulated_Nil_iff)
  with Nil(1) show ?case by (simp add: seg_final_def)
next
  case (Cons l ls)
  from Cons.prems(2) have nil: "strip (accumulated acc) = [] \<longleftrightarrow> acc = []"
    by (rule strip_accumulated_Nil_iff)
  show ?case
  proof (cases "header_match l")
    case (Some g)
    obtain g1 g2 where g: "g = (g1, g2)" by (cases g)
    define secs' where "secs' = (if strip (cs_content cur) \<noteq> [] then
                 secs @ [\<lparr>title = cs_title cur, content = strip (cs_content cur), level = 1\<rparr>]
               else secs)"
    define cur' where
      "cur' = \<lparr>cs_title = strip g2, cs_content = [], cs_level = Some (int (length g1))\<rparr>"
    have step: "seg_step (secs, cur) l = (secs', cur')"
      by (simp add: seg_step_def Some g secs'_def cur'_def)
    have emitted: "map content secs' =
        map content secs @ map (\<lambda>g. strip (accumulated g)) (filter (\<lambda>g. g \<noteq> []) [acc])"
      using nil Cons.prems(1) by (simp add: secs'_def)
    have "cs_content cur' = accumulated []" by (simp add: cur'_def)
    from Cons.IH [OF this, of secs'] emitted show ?thesis
      by (simp add: step Some)
  next
    case None
    show ?thesis
    proof (cases "strip l = []")
      case True
      then have "seg_step (secs, cur) l = (secs, cur)" by (simp add: seg_step_def None)
      with Cons.IH [OF Cons.prems, of secs] True None show ?thesis by simp
    next
      case False
      define cur' where "cur' = cur\<lparr>cs_content := cs_content cur @ l @ [CHR 0x0A]\<rparr>"
      have step: "seg_step (secs, cur) l = (secs, cur')"
        using False by (simp add: seg_step_def None cur'_def)
      have c: "cs_content cur' = accumulated (acc @ [l])"
        using Cons.prems(1) by (simp add: cur'_def)
      have g: "\<forall>x \<in> set (acc @ [l]). strip x \<noteq> []"
        using Cons.prems(2) False by auto
      from Cons.IH [OF c g, of secs] show ?thesis
        using False None by (simp add: step)
    qed
  qed
qed

lemma concat_body_groups:
  "concat (body_groups acc ls) =
   acc @ filter (\<lambda>l. strip l \<noteq> [] \<and> header_match l = None) ls"
  by (induction ls arbitrary: acc) auto

text \<open>
  Claim C5, as amended. The contents of the emitted sections, in emitted order, are the
  non-empty groups of content lines of the input, each group with its lines as they are
  in the input, every line followed by a newline, and the whole trimmed at its two ends.
  The groups, one after the other, are exactly the lines of the input that are neither
  blank nor header lines, in input order: every such line is in exactly one section and
  none is lost. Beyond the header lines, what is not kept is the blank lines and the
  whitespace at the two ends of a section's content.
\<close>

theorem contents_are_the_line_groups:
  "map content (parse_markdown_to_sections t) =
     map (\<lambda>g. strip (accumulated g))
       (filter (\<lambda>g. g \<noteq> []) (body_groups [] (split_nl t))) \<and>
   concat (body_groups [] (split_nl t)) =
     filter (\<lambda>l. strip l \<noteq> [] \<and> header_match l = None) (split_nl t)"
  using seg_loop_groups [of initial_section "[]" "[]" "split_nl t"]
    concat_body_groups [of "[]" "split_nl t"]
  by (simp add: parse_markdown_to_sections_def initial_section_def)

text \<open>
  Whitespace inside a section is kept: only the first line loses its leading and the
  last line its trailing whitespace.
\<close>

lemma inner_whitespace_is_kept:
  "body_groups [] (split_nl ''intro\<newline># A\<newline>  a\<newline>\<newline>    b  \<newline>c  \<newline>## B\<newline># C\<newline>d'') =
     [[''intro''], [''  a'', ''    b  '', ''c  ''], [], [''d'']] \<and>
   map content (parse_markdown_to_sections
       ''intro\<newline># A\<newline>  a\<newline>\<newline>    b  \<newline>c  \<newline>## B\<newline># C\<newline>d'') =
     [''intro'', ''a\<newline>    b  \<newline>c'', ''d'']"
  by (simp add: parse_markdown_to_sections_def seg_final_def seg_step_def header_match_def
      strip_def isspace_def initial_section_def)

text \<open>
  Claim C5 as stated fails: the text below has no header line to remove, and the
  concatenated contents are not the text.
\<close>

theorem contents_do_not_rebuild_input:
  "map header_match (split_nl ''a\<newline>\<newline>b'') = [None, None, None] \<and>
   concat (map content (parse_markdown_to_sections ''a\<newline>\<newline>b'')) = ''a\<newline>b'' \<and>
   ''a\<newline>b'' \<noteq> ''a\<newline>\<newline>b''"
  by (simp add: parse_markdown_to_sections_def seg_final_def seg_step_def header_match_def
      strip_def isspace_def initial_section_def)

subsection \<open>Segmenting rebuilt text\<close>

lemma seg_loop_append: "seg_loop st (a @ b) = seg_loop (seg_loop st a) b"
  by (induction a arbitrary: st) auto

lemma accumulated_split_nl: "accumulated (split_nl c) = c @ [CHR 0x0A]"
  by (induction c) (auto split: list.splits)

lemma stripped_ends:
  assumes "strip c = c" "c \<noteq> []"
  shows "\<not> isspace (hd c)" "\<not> isspace (last c)"
proof -
  from assms have "strip c \<noteq> []" by simp
  from strip_decomp [OF this] show "\<not> isspace (hd c)" "\<not> isspace (last c)"
    using assms(1) by auto
qed

lemma strip_stripped_nl:
  assumes "strip c = c" "c \<noteq> []"
  shows "strip (c @ [CHR 0x0A]) = c"
  using strip_sandwich [of "[]" "[CHR 0x0A]" c] stripped_ends [OF assms] assms(2) by simp

lemma header_match_rebuilt:
  assumes "strip t = t" "t \<noteq> []"
  shows "header_match (''# '' @ t) = Some (''#'', t)"
proof -
  from stripped_ends [OF assms] have h: "\<not> isspace (hd t)" by simp
  obtain a r where t: "t = a # r" using assms(2) by (cases t) auto
  with h have "\<not> isspace a" by simp
  then show ?thesis
    by (simp add: header_match_def t isspace_def)
qed

text \<open>What the emitted sections look like.\<close>

lemma header_match_group2_chars:
  "header_match l = Some (g1, g2) \<Longrightarrow> set g2 \<subseteq> set l"
proof -
  assume a: "header_match l = Some (g1, g2)"
  define rest where "rest = dropWhile (\<lambda>c. c = CHR ''#'') l"
  have r: "set rest \<subseteq> set l" by (auto simp: rest_def dest: set_dropWhileD)
  have "g2 = dropWhile isspace rest \<or> (takeWhile isspace rest \<noteq> [] \<and> g2 = [last (takeWhile isspace rest)])"
    using a by (auto simp: header_match_def Let_def rest_def split: if_splits)
  then have "set g2 \<subseteq> set rest"
  proof
    assume "g2 = dropWhile isspace rest"
    then show ?thesis by (auto dest: set_dropWhileD)
  next
    assume b: "takeWhile isspace rest \<noteq> [] \<and> g2 = [last (takeWhile isspace rest)]"
    then have "last (takeWhile isspace rest) \<in> set (takeWhile isspace rest)" by simp
    then have "last (takeWhile isspace rest) \<in> set rest" by (rule set_takeWhileD [THEN conjunct1])
    with b show ?thesis by simp
  qed
  with r show ?thesis by blast
qed

lemma shaped_emitted:
  assumes "strip t = t" "CHR 0x0A \<notin> set t"
    and "\<forall>l \<in> set acc. strip l \<noteq> [] \<and> CHR 0x0A \<notin> set l"
    and "strip (accumulated acc) \<noteq> []"
  shows "shaped \<lparr>title = t, content = strip (accumulated acc), level = n\<rparr>"
proof -
  from assms(3,4) have ne: "acc \<noteq> []" by (auto simp: strip_def)
  have m: "map strip (split_nl (strip (accumulated acc))) = map strip acc"
    using ne assms(3) by (rule lines_of_stripped_accumulation)
  have "strip l \<noteq> []" if "l \<in> set (split_nl (strip (accumulated acc)))" for l
  proof -
    from that have "strip l \<in> set (map strip (split_nl (strip (accumulated acc))))" by simp
    then have "strip l \<in> set (map strip acc)" by (simp only: m)
    with assms(3) show ?thesis by auto
  qed
  with assms show ?thesis by (simp add: shaped_def)
qed

lemma seg_loop_shaped:
  assumes "\<forall>s \<in> set secs. shaped s"
    and "strip (cs_title cur) = cs_title cur" "CHR 0x0A \<notin> set (cs_title cur)"
    and "cs_content cur = accumulated acc"
    and "\<forall>l \<in> set acc. strip l \<noteq> [] \<and> CHR 0x0A \<notin> set l"
    and "\<forall>l \<in> set ls. CHR 0x0A \<notin> set l"
  shows "\<forall>s \<in> set (seg_final (seg_loop (secs, cur) ls)). shaped s"
  using assms
proof (induction ls arbitrary: secs cur acc)
  case Nil
  then show ?case
    by (auto simp: seg_final_def Let_def intro: shaped_emitted)
next
  case (Cons l ls)
  from Cons.prems have nl: "CHR 0x0A \<notin> set l" and ls: "\<forall>l \<in> set ls. CHR 0x0A \<notin> set l" by auto
  show ?case
  proof (cases "header_match l")
    case (Some g)
    obtain g1 g2 where g: "g = (g1, g2)" by (cases g)
    define secs' where "secs' = (if strip (cs_content cur) \<noteq> [] then
                 secs @ [\<lparr>title = cs_title cur, content = strip (cs_content cur), level = 1\<rparr>]
               else secs)"
    define cur' where "cur' = \<lparr>cs_title = strip g2, cs_content = [], cs_level = Some (int (length g1))\<rparr>"
    have step: "seg_step (secs, cur) l = (secs', cur')"
      by (simp add: seg_step_def Some g secs'_def cur'_def)
    have 1: "\<forall>s \<in> set secs'. shaped s"
      using Cons.prems(1-5) by (auto simp: secs'_def intro: shaped_emitted)
    have "set g2 \<subseteq> set l" using Some g header_match_group2_chars by blast
    with nl have "CHR 0x0A \<notin> set g2" by blast
    then have 3: "CHR 0x0A \<notin> set (cs_title cur')" by (simp add: cur'_def strip_nl_free)
    have 2: "strip (cs_title cur') = cs_title cur'" by (simp add: cur'_def)
    have 4: "cs_content cur' = accumulated []" by (simp add: cur'_def)
    from Cons.IH [OF 1 2 3 4 _ ls] show ?thesis by (simp add: step)
  next
    case None
    show ?thesis
    proof (cases "strip l = []")
      case True
      then have "seg_step (secs, cur) l = (secs, cur)" by (simp add: seg_step_def None)
      with Cons.IH [OF Cons.prems(1-5) ls] show ?thesis by simp
    next
      case False
      define cur' where "cur' = cur\<lparr>cs_content := cs_content cur @ l @ [CHR 0x0A]\<rparr>"
      have step: "seg_step (secs, cur) l = (secs, cur')"
        using False by (simp add: seg_step_def None cur'_def)
      have c: "cs_content cur' = accumulated (acc @ [l])"
        using Cons.prems(4) by (simp add: cur'_def)
      have g: "\<forall>x \<in> set (acc @ [l]). strip x \<noteq> [] \<and> CHR 0x0A \<notin> set x"
        using Cons.prems(5) False nl by auto
      have t: "strip (cs_title cur') = cs_title cur'" "CHR 0x0A \<notin> set (cs_title cur')"
        using Cons.prems(2,3) by (simp_all add: cur'_def)
      from Cons.IH [OF Cons.prems(1) t c g ls] show ?thesis by (simp add: step)
    qed
  qed
qed

lemma sections_shaped: "s \<in> set (parse_markdown_to_sections text) \<Longrightarrow> shaped s"
proof -
  have "strip ''Content'' = ''Content''" by (simp add: strip_def isspace_def)
  then have "\<forall>s \<in> set (seg_final (seg_loop ([], initial_section) (split_nl text))). shaped s"
    by (intro seg_loop_shaped [where acc = "[]"]) (auto simp: initial_section_def split_nl_no_nl)
  then show "s \<in> set (parse_markdown_to_sections text) \<Longrightarrow> shaped s"
    by (simp add: parse_markdown_to_sections_def)
qed

text \<open>Segmenting rebuilt text.\<close>

lemma split_nl_section_block:
  "CHR 0x0A \<notin> set (title s) \<Longrightarrow> split_nl (section_block s) = block_lines s"
proof -
  assume a: "CHR 0x0A \<notin> set (title s)"
  have "section_block s = (''# '' @ title s) @ CHR 0x0A # content s"
    by (simp add: section_block_def)
  then have "split_nl (section_block s) = split_nl (''# '' @ title s) @ split_nl (content s)"
    by (simp only: split_nl_append)
  moreover have "split_nl (''# '' @ title s) = [''# '' @ title s]"
    using a by (intro split_nl_nl_free) auto
  ultimately show ?thesis by (simp add: block_lines_def)
qed

lemma split_nl_rebuild:
  assumes "\<forall>s \<in> set secs. CHR 0x0A \<notin> set (title s)" "secs \<noteq> []"
  shows "split_nl (rebuild secs) = concat (map block_lines secs)"
  using assms
proof (induction secs rule: induct_list012)
  case 1 then show ?case by simp
next
  case (2 s) then show ?case by (simp add: rebuild_def split_nl_section_block)
next
  case (3 s s' rest)
  have "rebuild (s # s' # rest) = section_block s @ CHR 0x0A # rebuild (s' # rest)"
    by (simp add: rebuild_def)
  then have "split_nl (rebuild (s # s' # rest)) =
             split_nl (section_block s) @ split_nl (rebuild (s' # rest))"
    by (simp only: split_nl_append)
  with 3 show ?case by (simp add: split_nl_section_block)
qed

lemma seg_block:
  assumes sh: "shaped s" and t: "title s \<noteq> []"
    and nh: "\<forall>l \<in> set (split_nl (content s)). header_match l = None"
  shows "seg_loop (emitted, cur) (block_lines s) =
     (emitted @ closed cur,
      \<lparr>cs_title = title s, cs_content = content s @ [CHR 0x0A], cs_level = Some 1\<rparr>)"
proof -
  from sh have st: "strip (title s) = title s" and nb: "\<forall>l \<in> set (split_nl (content s)). strip l \<noteq> []"
    by (auto simp: shaped_def)
  have step: "seg_step (emitted, cur) (''# '' @ title s) =
     (emitted @ closed cur, \<lparr>cs_title = title s, cs_content = [], cs_level = Some 1\<rparr>)"
    using header_match_rebuilt [OF st t] st
    by (simp add: seg_step_def closed_def del: append.simps)
  have f: "filter (\<lambda>l. strip l \<noteq> []) (split_nl (content s)) = split_nl (content s)"
    using nb by (simp add: filter_id_conv)
  have "seg_loop (emitted @ closed cur, \<lparr>cs_title = title s, cs_content = [], cs_level = Some 1\<rparr>)
          (split_nl (content s)) =
        (emitted @ closed cur,
         \<lparr>cs_title = title s, cs_content = content s @ [CHR 0x0A], cs_level = Some 1\<rparr>)"
    using seg_loop_no_header [OF nh, of "emitted @ closed cur"
        "\<lparr>cs_title = title s, cs_content = [], cs_level = Some 1\<rparr>"]
      accumulated_split_nl [of "content s"]
    by (simp add: f accumulated_def)
  then show ?thesis
    by (simp only: block_lines_def seg_loop.simps step)
qed

lemma seg_rebuilt:
  assumes "\<forall>s \<in> set secs. shaped s \<and> title s \<noteq> [] \<and> level s = 1 \<and>
             (\<forall>l \<in> set (split_nl (content s)). header_match l = None)"
    and "secs \<noteq> []"
  shows "seg_final (seg_loop (emitted, cur) (concat (map block_lines secs))) =
         emitted @ closed cur @ secs"
  using assms
proof (induction secs arbitrary: emitted cur)
  case Nil then show ?case by simp
next
  case (Cons s rest)
  from Cons.prems have sh: "shaped s" and t: "title s \<noteq> []" and lv: "level s = 1"
    and nh: "\<forall>l \<in> set (split_nl (content s)). header_match l = None" by auto
  define cur' where "cur' = \<lparr>cs_title = title s, cs_content = content s @ [CHR 0x0A], cs_level = Some 1\<rparr>"
  have blk: "seg_loop (emitted, cur) (block_lines s) = (emitted @ closed cur, cur')"
    unfolding cur'_def by (rule seg_block [OF sh t nh])
  from sh have c: "strip (content s) = content s" "content s \<noteq> []" by (auto simp: shaped_def)
  have sc: "strip (cs_content cur') = content s"
    using strip_stripped_nl [OF c] by (simp add: cur'_def)
  have s_eq: "\<lparr>title = title s, content = content s, level = 1\<rparr> = s"
    using lv by simp
  have cl: "closed cur' = [s]"
    using sc c(2) s_eq by (simp add: closed_def cur'_def)
  show ?case
  proof (cases "rest = []")
    case True
    have "seg_final (emitted @ closed cur, cur') = emitted @ closed cur @ [s]"
      using sc c(2) s_eq by (simp add: seg_final_def cur'_def)
    then show ?thesis by (simp add: True blk)
  next
    case False
    from Cons.prems have "\<forall>s \<in> set rest. shaped s \<and> title s \<noteq> [] \<and> level s = 1 \<and>
             (\<forall>l \<in> set (split_nl (content s)). header_match l = None)" by simp
    from Cons.IH [OF this False, of "emitted @ closed cur" cur'] show ?thesis
      by (simp add: seg_loop_append blk cl)
  qed
qed

text \<open>
  Claim C4, as amended. Take the sections the segmenter emits on some text, and let
  every title be non-empty, every level be 1 and no line of a content match the header
  pattern. Segmenting the text rebuilt from them, the blocks
  \<open>"# " + title + "\n" + content\<close> each on lines of its own, gives exactly these
  sections again.
\<close>

theorem rebuilt_sections_round_trip:
  assumes prod: "secs = parse_markdown_to_sections text"
    and ok: "\<forall>s \<in> set secs. title s \<noteq> [] \<and> level s = 1 \<and>
               (\<forall>l \<in> set (split_nl (content s)). header_match l = None)"
  shows "parse_markdown_to_sections (rebuild secs) = secs"
proof (cases "secs = []")
  case True
  then show ?thesis
    by (simp add: rebuild_def parse_markdown_to_sections_def seg_final_def seg_step_def
        header_match_def initial_section_def strip_def)
next
  case False
  have sh: "\<forall>s \<in> set secs. shaped s" using prod sections_shaped by blast
  then have nl: "\<forall>s \<in> set secs. CHR 0x0A \<notin> set (title s)" by (simp add: shaped_def)
  have all: "\<forall>s \<in> set secs. shaped s \<and> title s \<noteq> [] \<and> level s = 1 \<and>
             (\<forall>l \<in> set (split_nl (content s)). header_match l = None)"
    using sh ok by blast
  have "closed initial_section = []" by (simp add: closed_def initial_section_def strip_def)
  with seg_rebuilt [OF all False, of "[]" initial_section] show ?thesis
    by (simp add: parse_markdown_to_sections_def split_nl_rebuild [OF nl False])
qed

theorem rebuilt_sections_round_trip_witness:
  "parse_markdown_to_sections ''intro\<newline>## A\<newline>foo\<newline>\<newline># B\<newline> bar baz \<newline>qux'' =
     [\<lparr>title = ''Content'', content = ''intro'', level = 1\<rparr>,
      \<lparr>title = ''A'', content = ''foo'', level = 1\<rparr>,
      \<lparr>title = ''B'', content = ''bar baz \<newline>qux'', level = 1\<rparr>] \<and>
   rebuild [\<lparr>title = ''Content'', content = ''intro'', level = 1\<rparr>,
            \<lparr>title = ''A'', content = ''foo'', level = 1\<rparr>,
            \<lparr>title = ''B'', content = ''bar baz \<newline>qux'', level = 1\<rparr>] =
     ''# Content\<newline>intro\<newline># A\<newline>foo\<newline># B\<newline>bar baz \<newline>qux'' \<and>
   parse_markdown_to_sections
     (rebuild [\<lparr>title = ''Content'', content = ''intro'', level = 1\<rparr>,
               \<lparr>title = ''A'', content = ''foo'', level = 1\<rparr>,
               \<lparr>title = ''B'', content = ''bar baz \<newline>qux'', level = 1\<rparr>]) =
     [\<lparr>title = ''Content'', content = ''intro'', level = 1\<rparr>,
      \<lparr>title = ''A'', content = ''foo'', level = 1\<rparr>,
      \<lparr>title = ''B'', content = ''bar baz \<newline>qux'', level = 1\<rparr>]"
proof -
  let ?secs = "[\<lparr>title = ''Content'', content = ''intro'', level = 1\<rparr>,
      \<lparr>title = ''A'', content = ''foo'', level = 1\<rparr>,
      \<lparr>title = ''B'', content = ''bar baz \<newline>qux'', level = 1\<rparr>]"
  have p: "?secs = parse_markdown_to_sections ''intro\<newline>## A\<newline>foo\<newline>\<newline># B\<newline> bar baz \<newline>qux''"
    by code_simp
  have ok: "\<forall>s \<in> set ?secs. title s \<noteq> [] \<and> level s = 1 \<and>
               (\<forall>l \<in> set (split_nl (content s)). header_match l = None)"
    by (simp add: header_match_def)
  have r: "rebuild ?secs = ''# Content\<newline>intro\<newline># A\<newline>foo\<newline># B\<newline>bar baz \<newline>qux''"
    by (simp add: rebuild_def section_block_def)
  from rebuilt_sections_round_trip [OF p ok] p r show ?thesis by simp
qed

text \<open>
  Claim C4 as stated fails: a last section opened by a header of two markers has level 2,
  and the text rebuilt from it, with one marker, gives level 1.
\<close>

theorem rebuilt_level_is_lost:
  "parse_markdown_to_sections ''## A\<newline>foo'' = [\<lparr>title = ''A'', content = ''foo'', level = 2\<rparr>] \<and>
   concat (map section_block [\<lparr>title = ''A'', content = ''foo'', level = 2\<rparr>]) = ''# A\<newline>foo'' \<and>
   parse_markdown_to_sections (concat (map section_block [\<lparr>title = ''A'', content = ''foo'', level = 2\<rparr>])) =
     [\<lparr>title = ''A'', content = ''foo'', level = 1\<rparr>]"
  by (simp add: parse_markdown_to_sections_def seg_final_def seg_step_def header_match_def
      strip_def isspace_def initial_section_def section_block_def)

text \<open>
  Why the blocks are put on lines of their own and why no content line may look like a
  header: without a newline between two blocks the second header is read as content,
  and a content line that became a header line by trimming opens a section of its own.
\<close>

lemma plain_concatenation_merges_sections:
  "parse_markdown_to_sections ''# A\<newline>foo\<newline># B\<newline>bar'' =
     [\<lparr>title = ''A'', content = ''foo'', level = 1\<rparr>, \<lparr>title = ''B'', content = ''bar'', level = 1\<rparr>] \<and>
   parse_markdown_to_sections
     (concat (map section_block [\<lparr>title = ''A'', content = ''foo'', level = 1\<rparr>,
                                 \<lparr>title = ''B'', content = ''bar'', level = 1\<rparr>])) =
     [\<lparr>title = ''A'', content = ''foo# B\<newline>bar'', level = 1\<rparr>]"
  by (simp add: parse_markdown_to_sections_def seg_final_def seg_step_def header_match_def
      strip_def isspace_def initial_section_def section_block_def)

lemma header_like_content_is_lost:
  "parse_markdown_to_sections ''  # Foo'' = [\<lparr>title = ''Content'', content = ''# Foo'', level = 1\<rparr>] \<and>
   parse_markdown_to_sections (rebuild [\<lparr>title = ''Content'', content = ''# Foo'', level = 1\<rparr>]) = []"
  by (simp add: parse_markdown_to_sections_def seg_final_def seg_step_def header_match_def
      strip_def isspace_def initial_section_def section_block_def rebuild_def)

section \<open>Properties of the vision backend and of the service\<close>

subsection \<open>Documents over a limit\<close>

lemma lower_append: "lower (a @ b) = lower a @ lower b"
  by (simp add: lower_def)

lemma lower_too_large: "sublist ''too large'' (lower (''PDF file too large: '' @ x))"
proof -
  have lit: "lower ''PDF file too large: '' = ''pdf file '' @ ''too large'' @ '': ''"
    by code_simp
  have "lower (''PDF file too large: '' @ x) = (''pdf file '' @ ''too large'' @ '': '') @ lower x"
    by (simp only: lower_append lit)
  also have "\<dots> = ''pdf file '' @ ''too large'' @ ('': '' @ lower x)"
    by (simp only: append_assoc)
  finally show ?thesis
    unfolding sublist_def by blast
qed

lemma lower_too_many: "sublist ''too many pages'' (lower (''PDF has too many pages: '' @ x))"
proof -
  have lit: "lower ''PDF has too many pages: '' = ''pdf has '' @ ''too many pages'' @ '': ''"
    by code_simp
  have "lower (''PDF has too many pages: '' @ x) =
          (''pdf has '' @ ''too many pages'' @ '': '') @ lower x"
    by (simp only: lower_append lit)
  also have "\<dots> = ''pdf has '' @ ''too many pages'' @ ('': '' @ lower x)"
    by (simp only: append_assoc)
  finally show ?thesis
    unfolding sublist_def by blast
qed

lemma soft_skip_too_large:
  "parse_pdf_except (Inl (PDFValidationError (''PDF file too large: '' @ x))) = Inr None"
  using lower_too_large [of x] by (simp only: parse_pdf_except_def Let_def sum.case exn.case if_True simp_thms)

lemma soft_skip_too_many:
  "parse_pdf_except (Inl (PDFValidationError (''PDF has too many pages: '' @ x))) = Inr None"
  using lower_too_many [of x] by (simp only: parse_pdf_except_def Let_def sum.case exn.case if_True simp_thms)

lemma validate_too_large:
  assumes "stat_size w pdf_path = Inr n" "n \<noteq> 0" "max_file_size_bytes self < n"
  shows "validate_pdf w self pdf_path =
     Inl (PDFValidationError (''PDF file too large: '' @ fmt_mb w n @ ''MB > ''
                      @ fmt_mb w (max_file_size_bytes self) @ ''MB''))"
  using assms by (simp add: validate_pdf_def)

lemma validate_too_many:
  assumes "stat_size w pdf_path = Inr n" "n \<noteq> 0" "n \<le> max_file_size_bytes self"
    "read_header w pdf_path = Inr h" "prefix ''%PDF-'' h"
    "pdfium_len w pdf_path = Inr k" "max_pages self < k"
  shows "validate_pdf w self pdf_path =
     Inl (PDFValidationError (''PDF has too many pages: '' @ show_int k
                                    @ '' > '' @ show_int (max_pages self)))"
  using assms by (simp add: validate_pdf_def)

lemma parse_pdf_validation_error:
  "validate_pdf w self pdf_path = Inl e \<Longrightarrow>
   parse_pdf w self pdf_path s = (parse_pdf_except (Inl e), s)"
  by (simp add: parse_pdf_def parse_pdf_try_def parse_pdf_finally_def)

lemma service_on_none:
  "path_exists w pdf_path \<Longrightarrow> backend pdf_path (fst st) = (Inr None, s') \<Longrightarrow>
   service_parse_pdf w parser_type backend pdf_path st =
     (Inl (PDFParsingException (parser_type @ '' parsing returned no result for '' @ path_name w pdf_path)),
      (s', snd st @ [pdf_path]))"
  by (simp add: service_parse_pdf_def)

text \<open>
  Claim C1, as amended. For a document that exists and whose size exceeds the byte limit
  (or whose size and signature pass and whose page count exceeds the page limit), the
  vision backend's \<open>parse_pdf\<close> returns \<open>None\<close> and leaves the state as it was; the
  service's \<open>parse_pdf\<close> then raises a \<open>PDFParsingException\<close> saying that parsing
  returned no result.
\<close>

theorem limit_exceeded_soft_skip:
  assumes ex: "path_exists w pdf_path"
    and size: "stat_size w pdf_path = Inr n" and pos: "0 \<le> max_file_size_bytes self"
    and over: "max_file_size_bytes self < n \<or>
       (n \<noteq> 0 \<and> (\<exists>h k. read_header w pdf_path = Inr h \<and> prefix ''%PDF-'' h \<and>
                pdfium_len w pdf_path = Inr k \<and> max_pages self < k))"
  shows "parse_pdf w self pdf_path s = (Inr None, s) \<and>
         service_parse_pdf w parser_type (parse_pdf w self) pdf_path (s, calls) =
           (Inl (PDFParsingException
                   (parser_type @ '' parsing returned no result for '' @ path_name w pdf_path)),
            (s, calls @ [pdf_path]))"
proof -
  have skip: "parse_pdf w self pdf_path s = (Inr None, s)"
  proof (cases "max_file_size_bytes self < n")
    case True
    with pos have "n \<noteq> 0" by simp
    from validate_too_large [OF size this True] show ?thesis
      by (simp only: parse_pdf_validation_error soft_skip_too_large)
  next
    case False
    with over obtain h k where "n \<noteq> 0" "read_header w pdf_path = Inr h" "prefix ''%PDF-'' h"
      "pdfium_len w pdf_path = Inr k" "max_pages self < k" by blast
    with False have "validate_pdf w self pdf_path =
       Inl (PDFValidationError (''PDF has too many pages: '' @ show_int k
                                    @ '' > '' @ show_int (max_pages self)))"
      by (intro validate_too_many [OF size]) auto
    then show ?thesis
      by (simp only: parse_pdf_validation_error soft_skip_too_many)
  qed
  with ex show ?thesis by (simp add: service_on_none)
qed

theorem limit_exceeded_soft_skip_witness:
  "parse_pdf sample_world sample_parser ''big.pdf'' fresh_state = (Inr None, fresh_state) \<and>
   service_parse_pdf sample_world ''deepseek'' (parse_pdf sample_world sample_parser)
       ''big.pdf'' (fresh_state, []) =
     (Inl (PDFParsingException ''deepseek parsing returned no result for big.pdf''),
      (fresh_state, [''big.pdf''])) \<and>
   parse_pdf sample_world sample_parser ''long.pdf'' fresh_state = (Inr None, fresh_state) \<and>
   service_parse_pdf sample_world ''deepseek'' (parse_pdf sample_world sample_parser)
       ''long.pdf'' (fresh_state, []) =
     (Inl (PDFParsingException ''deepseek parsing returned no result for long.pdf''),
      (fresh_state, [''long.pdf'']))"
  using limit_exceeded_soft_skip [where w = sample_world and pdf_path = "''big.pdf''"
      and n = 31457280 and self = sample_parser and parser_type = "''deepseek''"
      and s = fresh_state and calls = "[]"]
    limit_exceeded_soft_skip [where w = sample_world and pdf_path = "''long.pdf''"
      and n = 51200 and self = sample_parser and parser_type = "''deepseek''"
      and s = fresh_state and calls = "[]"]
  by (simp add: sample_world_def sample_parser_def)

text \<open>
  Claim C1 as stated fails: on the 30 MB file, over the limit of 20 MB, the service does
  not return \<open>None\<close>, it raises.
\<close>

theorem service_raises_on_oversized_file:
  "path_exists sample_world ''big.pdf'' \<and>
   stat_size sample_world ''big.pdf'' = Inr 31457280 \<and>
   max_file_size_bytes sample_parser < 31457280 \<and>
   fst (service_parse_pdf sample_world ''deepseek'' (parse_pdf sample_world sample_parser)
          ''big.pdf'' (fresh_state, [])) =
     Inl (PDFParsingException ''deepseek parsing returned no result for big.pdf'')"
  by code_simp

subsection \<open>A missing file\<close>

lemma validate_pdf_error_cases:
  assumes "validate_pdf w self p = Inl e"
  shows "(\<exists>x. e = PDFValidationError (''Error validating PDF '' @ x)) \<or>
         (\<exists>x. e = PDFValidationError (''PDF file is empty: '' @ x)) \<or>
         (\<exists>x. e = PDFValidationError (''PDF file too large: '' @ x)) \<or>
         (\<exists>x. e = PDFValidationError (''File does not have PDF header: '' @ x)) \<or>
         (\<exists>x. e = PDFValidationError (''PDF has too many pages: '' @ x))"
  using assms unfolding validate_pdf_def validation_io_error_def
  by (auto split: sum.splits if_splits simp del: append.simps)

text \<open>
  Claim C7, as amended. For every configuration and backend, \<open>parse_pdf\<close> of the service
  on a path that does not exist raises \<open>PDFValidationError\<close> with the text
  \<open>PDF file not found: \<close> and the path; the backend is not called (its state and the
  list of calls are unchanged), so validation has not run. The exception has the class
  the validator raises as well; only its text differs from every error of the validator.
\<close>

theorem missing_file:
  assumes "\<not> path_exists w pdf_path"
  shows "service_parse_pdf w parser_type backend pdf_path (s, calls) =
           (Inl (PDFValidationError (''PDF file not found: '' @ pdf_path)), (s, calls))
         \<and> validate_pdf w' self p \<noteq> Inl (PDFValidationError (''PDF file not found: '' @ pdf_path))"
proof -
  have "validate_pdf w' self p \<noteq> Inl (PDFValidationError (''PDF file not found: '' @ pdf_path))"
  proof
    assume "validate_pdf w' self p = Inl (PDFValidationError (''PDF file not found: '' @ pdf_path))"
    from validate_pdf_error_cases [OF this] show False by auto
  qed
  with assms show ?thesis by (simp add: service_parse_pdf_def)
qed

theorem missing_file_witness:
  "service_parse_pdf sample_world ''deepseek'' (parse_pdf sample_world sample_parser) ''missing.pdf'' (fresh_state, []) =
           (Inl (PDFValidationError ''PDF file not found: missing.pdf''), (fresh_state, []))
   \<and> validate_pdf sample_world sample_parser ''bad.pdf'' \<noteq> Inl (PDFValidationError ''PDF file not found: missing.pdf'')"
  using missing_file [where w = sample_world and pdf_path = "''missing.pdf''" and w' = sample_world
     and self = sample_parser and p = "''bad.pdf''" and parser_type = "''deepseek''"
     and backend = "parse_pdf sample_world sample_parser" and s = fresh_state and calls = "[]"]
  by (simp add: sample_world_def)

text \<open>
  Claim C7 as stated fails: the error for a missing file and the validator's error for a
  file without PDF signature are of the same exception class.
\<close>

theorem missing_file_same_class_as_malformed:
  "\<not> path_exists sample_world ''missing.pdf'' \<and>
   fst (service_parse_pdf sample_world ''deepseek'' (parse_pdf sample_world sample_parser) ''missing.pdf'' (fresh_state, []))
      = Inl (PDFValidationError ''PDF file not found: missing.pdf'') \<and>
   validate_pdf sample_world sample_parser ''bad.pdf''
      = Inl (PDFValidationError ''File does not have PDF header: bad.pdf'') \<and>
   class_of (PDFValidationError ''PDF file not found: missing.pdf'')
     = class_of (PDFValidationError ''File does not have PDF header: bad.pdf'')"
  by code_simp

subsection \<open>The temporary directory\<close>

lemma render_pages_tmp:
  "d' \<noteq> d \<Longrightarrow> tmp (snd (render_pages w p d ns acc s)) d' = tmp s d'"
  by (induction ns arbitrary: acc s) (auto simp: Let_def split: option.splits)

lemma extract_pages_tmp:
  "d' \<noteq> d \<Longrightarrow> tmp (snd (extract_pages_as_images w self p d s)) d' = tmp s d'"
  by (auto simp: extract_pages_as_images_def Let_def render_pages_tmp split: sum.splits)

lemma finally_tmp:
  "tmp (parse_pdf_finally (Some d) s) = (tmp s)(d := None)"
  by (auto simp: parse_pdf_finally_def)

lemma lazy_load_tmp: "lazy_load_model w self s = Inr s1 \<Longrightarrow> tmp s1 = tmp s"
  by (auto simp: lazy_load_model_def split: if_splits option.splits)

lemma parse_pdf_try_tmp:
  assumes "parse_pdf_try w self p s = (r, s', t)"
  shows "(t = None \<and> tmp s' = tmp s) \<or>
         (\<exists>d. t = Some d \<and> mkdtemp w = Inr d \<and> (\<forall>d'. d' \<noteq> d \<longrightarrow> tmp s' d' = tmp s d'))"
proof (cases "\<exists>ok s1 d. validate_pdf w self p = Inr ok \<and> lazy_load_model w self s = Inr s1 \<and> mkdtemp w = Inr d")
  case False
  with assms show ?thesis
    by (auto simp: parse_pdf_try_def lazy_load_tmp split: sum.splits)
next
  case True
  then obtain ok s1 d where v: "validate_pdf w self p = Inr ok" and l: "lazy_load_model w self s = Inr s1"
    and m: "mkdtemp w = Inr d" by blast
  from l have s1: "tmp s1 = tmp s"
    by (rule lazy_load_tmp)
  define s2 where "s2 = s1\<lparr>tmp := (tmp s1)(d \<mapsto> [])\<rparr>"
  have s3: "s' = snd (extract_pages_as_images w self p d s2) \<and> t = Some d"
    using assms v l m unfolding parse_pdf_try_def s2_def
    by (auto simp: Let_def split: sum.splits prod.splits if_splits)
  have "\<forall>d'. d' \<noteq> d \<longrightarrow> tmp s' d' = tmp s d'"
    using s3 s1 by (simp add: extract_pages_tmp s2_def)
  with s3 m show ?thesis by blast
qed

text \<open>
  Claim C9. \<open>mkdtemp\<close> creates a directory that did not exist. Whatever the world does
  (validation rejects or soft-skips, the model fails to load, a page fails to render,
  recognition fails, or the call succeeds), the temporary directories and their files
  after \<open>parse_pdf\<close> are exactly those before the call: the directory of the call and
  every page image in it are gone.
\<close>

theorem temp_dir_removed:
  assumes fresh: "\<And>d. mkdtemp w = Inr d \<Longrightarrow> tmp s d = None"
  shows "tmp (snd (parse_pdf w self pdf_path s)) = tmp s"
proof -
  obtain r s' t where tr: "parse_pdf_try w self pdf_path s = (r, s', t)"
    by (cases "parse_pdf_try w self pdf_path s") auto
  then have res: "snd (parse_pdf w self pdf_path s) = parse_pdf_finally t s'"
    by (simp add: parse_pdf_def)
  from parse_pdf_try_tmp [OF tr] show ?thesis
  proof
    assume "t = None \<and> tmp s' = tmp s"
    then show ?thesis by (simp add: res parse_pdf_finally_def)
  next
    assume "\<exists>d. t = Some d \<and> mkdtemp w = Inr d \<and> (\<forall>d'. d' \<noteq> d \<longrightarrow> tmp s' d' = tmp s d')"
    then obtain d where t: "t = Some d" and m: "mkdtemp w = Inr d"
      and other: "\<forall>d'. d' \<noteq> d \<longrightarrow> tmp s' d' = tmp s d'" by blast
    have "tmp (parse_pdf_finally t s') = (tmp s')(d := None)"
      by (simp add: t finally_tmp)
    also have "\<dots> = tmp s"
      using other fresh [OF m] by (auto simp: fun_eq_iff)
    finally show ?thesis by (simp add: res)
  qed
qed

theorem temp_dir_removed_witness:
  "tmp fresh_state ''/tmp/deepseek_ocr_ab12'' = None \<and>
   tmp (snd (parse_pdf sample_world sample_parser ''paper.pdf'' fresh_state)) = tmp fresh_state"
  using temp_dir_removed [of sample_world fresh_state sample_parser "''paper.pdf''"]
  by (simp add: sample_world_def fresh_state_def)

text \<open>
  Without any assumption on the world: once \<open>mkdtemp\<close> has returned, its directory
  is gone when the call ends, here after a page that fails to render.
\<close>

lemma temp_dir_absent:
  assumes "parse_pdf_try w self pdf_path s = (r, s', Some d)"
  shows "tmp (snd (parse_pdf w self pdf_path s)) d = None"
  using assms by (simp add: parse_pdf_def parse_pdf_finally_def)

lemma temp_dir_removed_after_failure:
  "fst (parse_pdf (sample_world\<lparr>render_save := (\<lambda>p n img. if n = 1 then Some ''render failed'' else None)\<rparr>)
          sample_parser ''paper.pdf'' fresh_state) =
     Inl (PDFParsingException ''Failed to parse PDF with DeepSeek OCR: render failed'') \<and>
   tmp (snd (parse_pdf (sample_world\<lparr>render_save := (\<lambda>p n img. if n = 1 then Some ''render failed'' else None)\<rparr>)
          sample_parser ''paper.pdf'' fresh_state)) ''/tmp/deepseek_ocr_ab12'' = None"
  by code_simp
subsection \<open>Pages without text\<close>

lemma ocr_pages_empty:
  assumes "\<forall>img \<in> set imgs. extract_text_from_image_file w self img = Inr []"
  shows "ocr_pages w self imgs acc = Inr (acc @ replicate (length imgs) [])"
  using assms by (induction imgs arbitrary: acc) (auto simp: replicate_app_Cons_same)

lemma join_empty_Cons: "join sep ([] # replicate n []) = concat (replicate n sep)"
  by (induction n) auto

lemma join_empty: "join sep (replicate n []) = concat (replicate (n - 1) sep)"
  by (cases n) (simp_all add: join_empty_Cons)

text \<open>
  Claim C3, as amended. When validation passes, the model is loaded, the temporary
  directory is made, at least one page image is written and recognition gives the empty
  string for every page image (the session returned it, or raised), \<open>parse_pdf\<close>
  of the vision backend returns a \<open>PdfContent\<close> without sections whose raw text is
  only the separators between the pages, blank once trimmed. No failure is reported.
\<close>

theorem parse_pdf_all_pages_empty:
  assumes v: "validate_pdf w self pdf_path = Inr ok"
    and l: "lazy_load_model w self s = Inr s1"
    and m: "mkdtemp w = Inr temp_dir"
    and x: "extract_pages_as_images w self pdf_path temp_dir
              (s1\<lparr>tmp := (tmp s1)(temp_dir \<mapsto> [])\<rparr>) = (Inr image_paths, s3)"
    and ne: "image_paths \<noteq> []"
    and empty: "\<forall>img \<in> set image_paths. extract_text_from_image_file w self img = Inr []"
  shows "\<exists>c. fst (parse_pdf w self pdf_path s) = Inr (Some c) \<and> sections c = [] \<and>
             raw_text c = concat (replicate (length image_paths - 1) [CHR 0x0A, CHR 0x0A]) \<and>
             strip (raw_text c) = []"
proof -
  let ?full = "join [CHR 0x0A, CHR 0x0A] (replicate (length image_paths) [])"
  have full: "?full = concat (replicate (length image_paths - 1) [CHR 0x0A, CHR 0x0A])"
    by (rule join_empty)
  have blank: "strip ?full = []"
    unfolding full strip_Nil_iff by auto
  have secs: "parse_markdown_to_sections ?full = []"
    using blank by (rule blank_no_sections)
  have ocr: "ocr_pages w self image_paths [] = Inr (replicate (length image_paths) [])"
    using ocr_pages_empty [OF empty, of "[]"] by simp
  show ?thesis
    using v l m x ne ocr secs blank full
    by (simp add: parse_pdf_def parse_pdf_try_def parse_pdf_except_def Let_def)
qed

theorem parse_pdf_all_pages_empty_witness:
  "validate_pdf silent_world sample_parser ''paper.pdf'' = Inr True \<and>
   lazy_load_model silent_world sample_parser fresh_state = Inr (fresh_state\<lparr>model_loaded := True\<rparr>) \<and>
   mkdtemp silent_world = Inr ''/tmp/deepseek_ocr_ab12'' \<and>
   fst (extract_pages_as_images silent_world sample_parser ''paper.pdf'' ''/tmp/deepseek_ocr_ab12''
          ((fresh_state\<lparr>model_loaded := True\<rparr>)
             \<lparr>tmp := (tmp (fresh_state\<lparr>model_loaded := True\<rparr>))(''/tmp/deepseek_ocr_ab12'' \<mapsto> [])\<rparr>)) =
     Inr [''/tmp/deepseek_ocr_ab12/page_0000.png'', ''/tmp/deepseek_ocr_ab12/page_0001.png''] \<and>
   (\<exists>c. fst (parse_pdf silent_world sample_parser ''paper.pdf'' fresh_state) = Inr (Some c) \<and>
        sections c = [] \<and>
        raw_text c = concat (replicate (length [''/tmp/deepseek_ocr_ab12/page_0000.png'',
                               ''/tmp/deepseek_ocr_ab12/page_0001.png''] - 1) [CHR 0x0A, CHR 0x0A]) \<and>
        strip (raw_text c) = [])"
proof -
  have v: "validate_pdf silent_world sample_parser ''paper.pdf'' = Inr True"
    by code_simp
  have l: "lazy_load_model silent_world sample_parser fresh_state =
             Inr (fresh_state\<lparr>model_loaded := True\<rparr>)"
    by (simp add: lazy_load_model_def silent_world_def sample_world_def fresh_state_def)
  have m: "mkdtemp silent_world = Inr ''/tmp/deepseek_ocr_ab12''"
    by (simp add: silent_world_def sample_world_def)
  have x: "fst (extract_pages_as_images silent_world sample_parser ''paper.pdf''
                  ''/tmp/deepseek_ocr_ab12''
                  ((fresh_state\<lparr>model_loaded := True\<rparr>)
                     \<lparr>tmp := (tmp (fresh_state\<lparr>model_loaded := True\<rparr>))(''/tmp/deepseek_ocr_ab12'' \<mapsto> [])\<rparr>)) =
             Inr [''/tmp/deepseek_ocr_ab12/page_0000.png'', ''/tmp/deepseek_ocr_ab12/page_0001.png'']"
    by code_simp
  have e: "\<forall>img \<in> set [''/tmp/deepseek_ocr_ab12/page_0000.png'',
                         ''/tmp/deepseek_ocr_ab12/page_0001.png''].
             extract_text_from_image_file silent_world sample_parser img = Inr []"
    by (simp add: extract_text_from_image_file_def silent_world_def sample_parser_def
        resolution_config_def)
  from x obtain s3 where x':
    "extract_pages_as_images silent_world sample_parser ''paper.pdf'' ''/tmp/deepseek_ocr_ab12''
       ((fresh_state\<lparr>model_loaded := True\<rparr>)
          \<lparr>tmp := (tmp (fresh_state\<lparr>model_loaded := True\<rparr>))(''/tmp/deepseek_ocr_ab12'' \<mapsto> [])\<rparr>) =
     (Inr [''/tmp/deepseek_ocr_ab12/page_0000.png'', ''/tmp/deepseek_ocr_ab12/page_0001.png''], s3)"
    by (metis prod.collapse)
  have "\<exists>c. fst (parse_pdf silent_world sample_parser ''paper.pdf'' fresh_state) = Inr (Some c) \<and>
        sections c = [] \<and>
        raw_text c = concat (replicate (length [''/tmp/deepseek_ocr_ab12/page_0000.png'',
                               ''/tmp/deepseek_ocr_ab12/page_0001.png''] - 1) [CHR 0x0A, CHR 0x0A]) \<and>
        strip (raw_text c) = []"
    by (rule parse_pdf_all_pages_empty [OF v l m x' _ e]) simp
  with v l m x show ?thesis by blast
qed

text \<open>
  Claim C3 as stated fails: with a session that raises on both pages of the document,
  each page degrades to the empty string and the backend returns a \<open>PdfContent\<close>.
\<close>

theorem all_pages_empty_is_success:
  "extract_text_from_image_file silent_world sample_parser ''/tmp/deepseek_ocr_ab12/page_0000.png'' = Inr [] \<and>
   extract_text_from_image_file silent_world sample_parser ''/tmp/deepseek_ocr_ab12/page_0001.png'' = Inr [] \<and>
   fst (parse_pdf silent_world sample_parser ''paper.pdf'' fresh_state) =
     Inr (Some \<lparr>sections = [], figures = [], tables = [], raw_text = ''\<newline>\<newline>'',
                references = [], parser_used = DEEPSEEK,
                metadata =
                  [(''source'', MStr ''deepseek-ocr''),
                   (''model'', MStr ''deepseek-ai/DeepSeek-OCR''),
                   (''resolution'', MStr ''base''),
                   (''pages_processed'', MInt 2)]\<rparr>)"
  by code_simp

text \<open>The failure the backend does report: no page image at all.\<close>

lemma parse_pdf_no_images:
  assumes "validate_pdf w self pdf_path = Inr ok"
    and "lazy_load_model w self s = Inr s1"
    and "mkdtemp w = Inr temp_dir"
    and "extract_pages_as_images w self pdf_path temp_dir
           (s1\<lparr>tmp := (tmp s1)(temp_dir \<mapsto> [])\<rparr>) = (Inr [], s3)"
  shows "fst (parse_pdf w self pdf_path s) =
           Inl (PDFParsingException
                  (''Failed to parse PDF with DeepSeek OCR: ''
                     @ ''No images extracted from PDF: '' @ pdf_path))"
  using assms
  by (simp add: parse_pdf_def parse_pdf_try_def parse_pdf_except_def Let_def)

end
